theory Spec2Isabelle
  imports Main "HOL-Library.Sublist"
begin

text \<open>
  A model of the syntax highlighter of \<open>cppdf/cli.py\<close>: the tokenizer and classifier
  of \<open>draw_code_tokens\<close>, the comment state machine of \<open>draw_highlighted_line\<close>, the
  palettes of \<open>THEMES\<close> and the chunking loop of \<open>create_pdf\<close>, with the properties
  C1 to C10 of its specification.
\<close>

section \<open>Python string primitives used by \<open>cli.py\<close>\<close>

text \<open>
  A Python \<open>str\<close> is modelled as a \<open>string\<close>, one \<open>char\<close> per code point; the model
  therefore covers text whose code points are below 256. Indices and lengths are
  natural numbers; \<open>str.find\<close> returns \<open>None\<close> where Python returns \<open>-1\<close>.
\<close>

abbreviation dquote :: char where "dquote \<equiv> CHR 0x22"
abbreviation squote :: char where "squote \<equiv> CHR 0x27"
abbreviation backslash :: char where "backslash \<equiv> CHR 0x5C"
abbreviation newline :: char where "newline \<equiv> CHR 0x0A"

text \<open>\<open>s.startswith(p)\<close> and \<open>s.endswith(p)\<close>.\<close>

definition startswith :: "string \<Rightarrow> string \<Rightarrow> bool" where
  "startswith s p = prefix p s"

definition endswith :: "string \<Rightarrow> string \<Rightarrow> bool" where
  "endswith s p = suffix p s"

text \<open>\<open>s.find(sub)\<close>: the lowest index at which \<open>sub\<close> occurs in \<open>s\<close>.\<close>

fun str_find :: "string \<Rightarrow> string \<Rightarrow> nat option" where
  "str_find sub [] = (if sub = [] then Some 0 else None)"
| "str_find sub (c # cs) =
     (if prefix sub (c # cs) then Some 0 else map_option Suc (str_find sub cs))"

text \<open>\<open>s.find(sub, start)\<close> for \<open>start \<le> len(s)\<close>, the only way the source calls it.\<close>

definition str_find_from :: "string \<Rightarrow> string \<Rightarrow> nat \<Rightarrow> nat option" where
  "str_find_from sub s start = map_option (\<lambda>i. i + start) (str_find sub (drop start s))"

text \<open>\<open>sub in s\<close>.\<close>

fun str_in :: "string \<Rightarrow> string \<Rightarrow> bool" where
  "str_in sub [] = (sub = [])"
| "str_in sub (c # cs) = (prefix sub (c # cs) \<or> str_in sub cs)"

text \<open>
  The character classes of Python's \<open>re\<close> on \<open>str\<close> patterns, for code points below 256:
  \<open>\s\<close> is \<open>str.isspace\<close>, \<open>\w\<close> is \<open>str.isalnum\<close> or the underscore.
\<close>

definition is_space :: "char \<Rightarrow> bool" where
  "is_space c = (let n = (of_char c :: nat) in
     (9 \<le> n \<and> n \<le> 13) \<or> (28 \<le> n \<and> n \<le> 32) \<or> n = 133 \<or> n = 160)"

definition is_digit :: "char \<Rightarrow> bool" where
  "is_digit c = (c \<in> set ''0123456789'')"

definition is_hex :: "char \<Rightarrow> bool" where
  "is_hex c = (c \<in> set ''0123456789abcdefABCDEF'')"

definition is_ident_start :: "char \<Rightarrow> bool" where
  "is_ident_start c =
     (c \<in> set ''ABCDEFGHIJKLMNOPQRSTUVWXYZabcdefghijklmnopqrstuvwxyz_'')"

definition is_word :: "char \<Rightarrow> bool" where
  "is_word c = (is_ident_start c \<or> is_digit c \<or>
     (let n = (of_char c :: nat) in
        n = 170 \<or> n = 178 \<or> n = 179 \<or> n = 181 \<or> n = 185 \<or> n = 186 \<or>
        (188 \<le> n \<and> n \<le> 190) \<or> (192 \<le> n \<and> n \<noteq> 215 \<and> n \<noteq> 247)))"

definition is_num_suffix :: "char \<Rightarrow> bool" where
  "is_num_suffix c = (c \<in> set ''fFlLuU'')"

text \<open>\<open>s.isspace()\<close> and \<open>s.strip()\<close>.\<close>

definition isspace :: "string \<Rightarrow> bool" where
  "isspace s = (s \<noteq> [] \<and> list_all is_space s)"

definition strip :: "string \<Rightarrow> string" where
  "strip s = rev (dropWhile is_space (rev (dropWhile is_space s)))"

section \<open>The tokenizer: \<open>re.findall(token_pattern, line)\<close>\<close>

text \<open>
  Each alternative of \<open>token_pattern\<close> is a function that, tried at the start of the
  remaining text, returns the text it matches there. Every alternative is greedy and
  nothing follows the alternation, so the leftmost alternative that can match wins
  with its greedy match.
\<close>

text \<open>
  The body of a quoted literal after its opening quote \<open>q\<close>:
  \<open>[^q\\]*(?:\\.[^q\\]*)*q\<close>, where \<open>.\<close> is any character but a newline.
  The result is the number of characters up to and including the closing quote.
\<close>

fun quoted_body :: "char \<Rightarrow> string \<Rightarrow> nat option" where
  "quoted_body q [] = None"
| "quoted_body q [c] = (if c = q then Some 1 else None)"
| "quoted_body q (c # d # ds) =
     (if c = q then Some 1
      else if c = backslash then
        (if d = newline then None else map_option (\<lambda>n. n + 2) (quoted_body q ds))
      else map_option Suc (quoted_body q (d # ds)))"

definition match_quoted :: "char \<Rightarrow> string \<Rightarrow> string option" where
  "match_quoted q s =
     (case s of
        [] \<Rightarrow> None
      | c # cs \<Rightarrow>
          if c = q then map_option (\<lambda>n. take (Suc n) s) (quoted_body q cs)
          else None)"

text \<open>\<open>0x[0-9a-fA-F]+\<close>\<close>

definition match_hex :: "string \<Rightarrow> string option" where
  "match_hex s =
     (case s of
        c0 # cx # rest \<Rightarrow>
          if c0 = CHR ''0'' \<and> cx = CHR ''x'' \<and> takeWhile is_hex rest \<noteq> []
          then Some (c0 # cx # takeWhile is_hex rest)
          else None
      | _ \<Rightarrow> None)"

text \<open>\<open>[0-9]+\.?[0-9]*[fFlLuU]*\<close>\<close>

definition match_number :: "string \<Rightarrow> string option" where
  "match_number s =
     (let d1 = takeWhile is_digit s; r1 = dropWhile is_digit s in
      if d1 = [] then None
      else
        let dot = (if startswith r1 ''.'' then ''.'' else []);
            r2 = drop (length dot) r1;
            d2 = takeWhile is_digit r2; r3 = dropWhile is_digit r2;
            sfx = takeWhile is_num_suffix r3
        in Some (d1 @ dot @ d2 @ sfx))"

text \<open>\<open>[A-Za-z_]\w*\<close>\<close>

definition match_identifier :: "string \<Rightarrow> string option" where
  "match_identifier s =
     (case s of
        [] \<Rightarrow> None
      | c # cs \<Rightarrow> if is_ident_start c then Some (c # takeWhile is_word cs) else None)"

text \<open>\<open>::|->|\+\+|--|<<|>>|<=|>=|==|!=|&&|\|\|\<close>, in this order.\<close>

definition multi_char_operators :: "string list" where
  "multi_char_operators =
     [''::'', ''->'', ''++'', ''--'', ''<<'', ''>>'', ''<='', ''>='', ''=='', ''!='',
      ''&&'', ''||'']"

definition match_multi_operator :: "string \<Rightarrow> string option" where
  "match_multi_operator s = find (\<lambda>op. prefix op s) multi_char_operators"

text \<open>\<open>[+\-*/%=<>!&|^~?:]\<close> and then \<open>\(|\)|\[|\]|\{|\}|;|,|\.|#\<close>\<close>

definition single_char_tokens :: string where
  "single_char_tokens = ''+-*/%=<>!&|^~?:()[]{};,.#''"

definition match_single :: "string \<Rightarrow> string option" where
  "match_single s =
     (case s of
        [] \<Rightarrow> None
      | c # cs \<Rightarrow> if c \<in> set single_char_tokens then Some [c] else None)"

text \<open>\<open>\s+\<close>\<close>

definition match_whitespace :: "string \<Rightarrow> string option" where
  "match_whitespace s =
     (if takeWhile is_space s = [] then None else Some (takeWhile is_space s))"

text \<open>The ordered alternation: the first alternative that matches.\<close>

definition or_else :: "'a option \<Rightarrow> 'a option \<Rightarrow> 'a option" where
  "or_else a b = (case a of None \<Rightarrow> b | Some x \<Rightarrow> Some x)"

definition token_pattern :: "string \<Rightarrow> string option" where
  "token_pattern s =
     or_else (match_quoted dquote s)
    (or_else (match_quoted squote s)
    (or_else (match_hex s)
    (or_else (match_number s)
    (or_else (match_identifier s)
    (or_else (match_multi_operator s)
    (or_else (match_single s)
             (match_whitespace s)))))))"

text \<open>
  \<open>re.findall\<close>: scan from the left; where the pattern matches, emit the match and
  resume at its end (a match is never empty, so that is \<open>length t - 1\<close> characters
  past the one after the current position); where it does not, step over one
  character, which is thereby left out of the token list.
\<close>

fun findall_tokens :: "string \<Rightarrow> string list" where
  "findall_tokens [] = []"
| "findall_tokens (c # cs) =
     (case token_pattern (c # cs) of
        None \<Rightarrow> findall_tokens cs
      | Some t \<Rightarrow> t # findall_tokens (drop (length t - 1) cs))"

section \<open>The classifier: the loop of \<open>draw_code_tokens\<close>\<close>

definition cpp_keywords :: "string list" where
  "cpp_keywords =
     [''if'', ''else'', ''while'', ''for'', ''do'', ''switch'', ''case'', ''default'',
      ''break'', ''continue'', ''return'', ''goto'', ''const'', ''static'', ''extern'',
      ''auto'', ''register'', ''volatile'', ''mutable'', ''inline'', ''virtual'',
      ''explicit'', ''friend'', ''typedef'', ''public'', ''private'', ''protected'',
      ''class'', ''struct'', ''union'', ''enum'', ''namespace'', ''using'', ''template'',
      ''typename'', ''try'', ''catch'', ''throw'', ''new'', ''delete'', ''this'',
      ''const_cast'', ''dynamic_cast'', ''reinterpret_cast'', ''static_cast'', ''true'',
      ''false'', ''nullptr'']"

definition cpp_types :: "string list" where
  "cpp_types =
     [''int'', ''float'', ''double'', ''char'', ''bool'', ''void'', ''long'', ''short'',
      ''unsigned'', ''signed'', ''wchar_t'', ''char16_t'', ''char32_t'', ''size_t'',
      ''ptrdiff_t'', ''nullptr_t'', ''int8_t'', ''int16_t'', ''int32_t'', ''int64_t'',
      ''uint8_t'', ''uint16_t'', ''uint32_t'', ''uint64_t'', ''string'', ''vector'',
      ''map'', ''set'', ''list'', ''deque'', ''array'', ''pair'', ''tuple'',
      ''unique_ptr'', ''shared_ptr'', ''weak_ptr'']"

text \<open>
  One constructor per colouring branch of the source, named after the branch's
  comment; the three span-level branches of \<open>draw_highlighted_line\<close> come last.
\<close>

datatype category =
    StringLit | Keyword | TypeName | FunctionCall | MemberAccess | NamespaceAccess
  | PointerOrRef | Operator | Number | Punctuation | Whitespace | Identifier
  | Preprocessor | LineComment | BlockComment

type_synonym span = "string \<times> category"

text \<open>\<open>$\<close> matches at the end of the text or just before a final newline.\<close>

definition at_end :: "string \<Rightarrow> bool" where
  "at_end s = (s = [] \<or> s = [newline])"

text \<open>\<open>re.match(r"^[A-Za-z_]\w*$", token)\<close>\<close>

definition is_identifier :: "string \<Rightarrow> bool" where
  "is_identifier token =
     (case token of
        [] \<Rightarrow> False
      | c # cs \<Rightarrow> is_ident_start c \<and> at_end (dropWhile is_word cs))"

text \<open>\<open>re.match(r"^(0x[0-9a-fA-F]+|\d+\.?\d*[fFlLuU]*)$", token)\<close>\<close>

definition is_number :: "string \<Rightarrow> bool" where
  "is_number token =
     ((case match_hex token of
         Some t \<Rightarrow> at_end (drop (length t) token)
       | None \<Rightarrow> False) \<or>
      (case match_number token of
         Some t \<Rightarrow> at_end (drop (length t) token)
       | None \<Rightarrow> False))"

definition pointer_tokens :: "string list" where
  "pointer_tokens = [''*'', ''&'', ''->'', ''::'']"

definition operator_tokens :: "string list" where
  "operator_tokens =
     [''+'', ''-'', ''/'', ''%'', ''='', ''<'', ''>'', ''!'', ''|'', ''^'', ''~'', ''?'',
      ''++'', ''--'', ''<<'', ''>>'', ''<='', ''>='', ''=='', ''!='', ''&&'', ''||'']"

definition punctuation_tokens :: "string list" where
  "punctuation_tokens = [''('', '')'', ''['', '']'', ''{'', ''}'', '';'', '','', ''#'']"

text \<open>
  The \<open>if\<close>/\<open>elif\<close> chain of the loop body for one token, given \<open>prev_token\<close> and
  \<open>next_token\<close> (\<open>None\<close> as in the source).
\<close>

definition classify :: "string option \<Rightarrow> string \<Rightarrow> string option \<Rightarrow> category" where
  "classify prev_token token next_token =
     (if (startswith token [dquote] \<and> endswith token [dquote]) \<or>
         (startswith token [squote] \<and> endswith token [squote]) then StringLit
      else if token \<in> set cpp_keywords then Keyword
      else if token \<in> set cpp_types then TypeName
      else if is_identifier token \<and>
              (case next_token of None \<Rightarrow> False | Some n \<Rightarrow> n \<noteq> [] \<and> strip n = ''('')
        then FunctionCall
      else if prev_token \<in> {Some ''.'', Some ''->''} \<and> is_identifier token then MemberAccess
      else if prev_token = Some ''::'' \<and> is_identifier token then NamespaceAccess
      else if token \<in> set pointer_tokens then PointerOrRef
      else if token \<in> set operator_tokens then Operator
      else if is_number token then Number
      else if token \<in> set punctuation_tokens then Punctuation
      else if isspace token then Whitespace
      else Identifier)"

text \<open>
  The loop over \<open>tokens\<close>, threading \<open>prev_token\<close>: a whitespace token becomes
  \<open>prev_token\<close> as it is, any other token stripped.
\<close>

fun classify_tokens :: "string option \<Rightarrow> string list \<Rightarrow> span list" where
  "classify_tokens prev_token [] = []"
| "classify_tokens prev_token (token # rest) =
     (let next_token = (case rest of [] \<Rightarrow> None | t # _ \<Rightarrow> Some t);
          cat = classify prev_token token next_token
      in (token, cat) #
         classify_tokens (Some (if cat = Whitespace then token else strip token)) rest)"

text \<open>\<open>draw_code_tokens\<close>: the spans drawn for a piece of code, left to right.\<close>

definition draw_code_tokens :: "string \<Rightarrow> span list" where
  "draw_code_tokens line = classify_tokens None (findall_tokens line)"

section \<open>The line highlighter: \<open>draw_highlighted_line\<close>\<close>

text \<open>The slice \<open>s[a:b]\<close> for \<open>a \<le> len(s)\<close>.\<close>

definition slice :: "'a list \<Rightarrow> nat \<Rightarrow> nat \<Rightarrow> 'a list" where
  "slice s a b = take (b - a) (drop a s)"

text \<open>\<open>re.match(r"^\s*#", line)\<close>\<close>

definition is_preprocessor :: "string \<Rightarrow> bool" where
  "is_preprocessor line =
     (case dropWhile is_space line of [] \<Rightarrow> False | c # _ \<Rightarrow> c = CHR ''#'')"

text \<open>
  The canvas calls of one line are modelled by the spans they draw, in order; the
  returned flag is the function's return value. Positions and widths are left out.
  The recursive call for the text after a closing \<open>*/\<close> draws its spans and its
  return value is dropped, as in the source. The source's local \<open>before\<close> is written
  \<open>before_part\<close>.
\<close>

function draw_highlighted_line :: "string \<Rightarrow> bool \<Rightarrow> span list \<times> bool" where
  "draw_highlighted_line line in_block_comment =
     (if in_block_comment then
        (case str_find ''*/'' line of
           Some end_pos \<Rightarrow>
             (let comment_part = take (end_pos + 2) line;
                  rest_of_line = drop (end_pos + 2) line
              in ((comment_part, BlockComment) #
                    (if rest_of_line \<noteq> [] then fst (draw_highlighted_line rest_of_line False)
                     else []),
                  False))
         | None \<Rightarrow> ([(line, BlockComment)], True))
      else
        (case str_find ''/*'' line of
           Some block_comment_start \<Rightarrow>
             (case str_find_from ''*/'' line (block_comment_start + 2) of
                Some block_comment_end \<Rightarrow>
                  (let before_part = take block_comment_start line;
                       comment = slice line block_comment_start (block_comment_end + 2);
                       after = drop (block_comment_end + 2) line
                   in ((if before_part \<noteq> [] then draw_code_tokens before_part else []) @
                       [(comment, BlockComment)] @
                       (if after \<noteq> [] then draw_code_tokens after else []),
                       False))
              | None \<Rightarrow>
                  (let before_part = take block_comment_start line;
                       comment = drop block_comment_start line
                   in ((if before_part \<noteq> [] then draw_code_tokens before_part else []) @
                       [(comment, BlockComment)],
                       True)))
         | None \<Rightarrow>
             if is_preprocessor line then ([(line, Preprocessor)], False)
             else if str_in ''//'' line then
               (let (before_part, comment) =
                      (case str_find ''//'' line of
                         Some comment_start \<Rightarrow> (take comment_start line, drop comment_start line)
                       | None \<Rightarrow> (take (length line - 1) line, drop (length line - 1) line))
                in ((if before_part \<noteq> [] then draw_code_tokens before_part else []) @
                    [(comment, LineComment)],
                    False))
             else (draw_code_tokens line, False)))"
  by pat_completeness auto
termination
  by (relation "measure (\<lambda>(line, in_block_comment). if in_block_comment then 1 else 0)") auto

section \<open>Theme palettes\<close>

type_synonym palette = "(string \<times> string) list"

definition THEMES :: "(string \<times> palette) list" where
  "THEMES =
     [(''catppuccin-mocha'',
       [(''bg'', ''#1e1e2e''), (''bg_page'', ''#11111b''), (''border'', ''#313244''),
        (''linenr'', ''#6c7086''), (''text'', ''#cdd6f4''), (''text_dim'', ''#bac2de''),
        (''comment'', ''#6c7086''), (''keyword'', ''#cba6f7''), (''function'', ''#89b4fa''),
        (''string'', ''#a6e3a1''), (''number'', ''#fab387''), (''preproc'', ''#f5c2e7''),
        (''type'', ''#f9e2af''), (''variable'', ''#cdd6f4''), (''property'', ''#89dceb''),
        (''operator'', ''#94e2d5''), (''punctuation'', ''#bac2de'')]),
      (''catppuccin-latte'',
       [(''bg'', ''#eff1f5''), (''bg_page'', ''#e6e9ef''), (''border'', ''#ccd0da''),
        (''linenr'', ''#8c8fa1''), (''text'', ''#4c4f69''), (''text_dim'', ''#5c5f77''),
        (''comment'', ''#9ca0b0''), (''keyword'', ''#8839ef''), (''function'', ''#1e66f5''),
        (''string'', ''#40a02b''), (''number'', ''#fe640b''), (''preproc'', ''#ea76cb''),
        (''type'', ''#df8e1d''), (''variable'', ''#4c4f69''), (''property'', ''#04a5e5''),
        (''operator'', ''#179299''), (''punctuation'', ''#5c5f77'')]),
      (''kanagawa-wave'',
       [(''bg'', ''#1F1F28''), (''bg_page'', ''#16161D''), (''border'', ''#54546D''),
        (''linenr'', ''#54546D''), (''text'', ''#DCD7BA''), (''text_dim'', ''#C8C093''),
        (''comment'', ''#727169''), (''keyword'', ''#957FB8''), (''function'', ''#7E9CD8''),
        (''string'', ''#98BB6C''), (''number'', ''#FFA066''), (''preproc'', ''#E46876''),
        (''type'', ''#E6C384''), (''variable'', ''#DCD7BA''), (''property'', ''#7FB4CA''),
        (''operator'', ''#C0A36E''), (''punctuation'', ''#C8C093'')]),
      (''kanagawa-dragon'',
       [(''bg'', ''#181616''), (''bg_page'', ''#0d0c0c''), (''border'', ''#625e5a''),
        (''linenr'', ''#625e5a''), (''text'', ''#c5c9c5''), (''text_dim'', ''#a6a69c''),
        (''comment'', ''#7a8382''), (''keyword'', ''#8992a7''), (''function'', ''#8ba4b0''),
        (''string'', ''#87a987''), (''number'', ''#b98d7b''), (''preproc'', ''#c4746e''),
        (''type'', ''#c4b28a''), (''variable'', ''#c5c9c5''), (''property'', ''#8ea4a2''),
        (''operator'', ''#b6927b''), (''punctuation'', ''#9e9b93'')]),
      (''kanagawa-lotus'',
       [(''bg'', ''#f2ecbc''), (''bg_page'', ''#d5cea3''), (''border'', ''#b5cbd2''),
        (''linenr'', ''#b5cbd2''), (''text'', ''#545464''), (''text_dim'', ''#43436c''),
        (''comment'', ''#9fb5c9''), (''keyword'', ''#8a6596''), (''function'', ''#6693bf''),
        (''string'', ''#6f894e''), (''number'', ''#e98a00''), (''preproc'', ''#c84053''),
        (''type'', ''#836f4a''), (''variable'', ''#545464''), (''property'', ''#4e8ca2''),
        (''operator'', ''#8a6596''), (''punctuation'', ''#625e5a'')])]"

text \<open>\<open>THEMES[name][key]\<close>; \<open>None\<close> where Python raises \<open>KeyError\<close>.\<close>

definition theme_color :: "string \<Rightarrow> string \<Rightarrow> string option" where
  "theme_color name key =
     (case map_of THEMES name of None \<Rightarrow> None | Some theme \<Rightarrow> map_of theme key)"

text \<open>
  The palette key each branch passes to \<open>theme[...]\<close>. The whitespace branch only
  advances the position and looks no colour up.
\<close>

fun category_key :: "category \<Rightarrow> string option" where
  "category_key StringLit = Some ''string''"
| "category_key Keyword = Some ''keyword''"
| "category_key TypeName = Some ''type''"
| "category_key FunctionCall = Some ''function''"
| "category_key MemberAccess = Some ''property''"
| "category_key NamespaceAccess = Some ''type''"
| "category_key PointerOrRef = Some ''operator''"
| "category_key Operator = Some ''operator''"
| "category_key Number = Some ''number''"
| "category_key Punctuation = Some ''punctuation''"
| "category_key Whitespace = None"
| "category_key Identifier = Some ''variable''"
| "category_key Preprocessor = Some ''preproc''"
| "category_key LineComment = Some ''comment''"
| "category_key BlockComment = Some ''comment''"

text \<open>The keys the page and block decoration look up (\<open>draw\<close>, \<open>create_pdf\<close>).\<close>

definition decoration_keys :: "string list" where
  "decoration_keys = [''bg'', ''bg_page'', ''border'', ''linenr'', ''text'', ''text_dim'']"

section \<open>The chunker: the per-file loop of \<open>create_pdf\<close>\<close>

text \<open>\<open>s.split("\n")\<close> and \<open>"\n".join(ls)\<close>.\<close>

fun split_nl :: "string \<Rightarrow> string list" where
  "split_nl [] = [[]]"
| "split_nl (c # cs) =
     (if c = newline then [] # split_nl cs
      else (case split_nl cs of [] \<Rightarrow> [[c]] | l # ls \<Rightarrow> (c # l) # ls))"

fun join_nl :: "string list \<Rightarrow> string" where
  "join_nl [] = []"
| "join_nl [l] = l"
| "join_nl (l # m # ls) = l @ newline # join_nl (m # ls)"

text \<open>The fields of \<open>SyntaxHighlightedCode\<close> that the chunker sets.\<close>

record flowable =
  code :: string
  start_line :: nat
  is_first_chunk :: bool
  is_last_chunk :: bool
  lines :: "string list"
  in_block_comment :: bool

definition SyntaxHighlightedCode ::
  "string \<Rightarrow> nat \<Rightarrow> bool \<Rightarrow> bool \<Rightarrow> bool \<Rightarrow> flowable" where
  "SyntaxHighlightedCode c sl is_first is_last ibc =
     \<lparr>code = c, start_line = sl, is_first_chunk = is_first, is_last_chunk = is_last,
      lines = split_nl c, in_block_comment = ibc\<rparr>"

definition max_lines_per_chunk :: nat where
  "max_lines_per_chunk = 55"

text \<open>The body of the inner \<open>for line in lines[chunk_start:chunk_end]\<close> loop.\<close>

definition scan_line :: "bool \<Rightarrow> string \<Rightarrow> bool" where
  "scan_line ibc line =
     (if str_in ''/*'' line \<and> \<not> str_in ''*/'' line then True
      else if str_in ''*/'' line then False
      else ibc)"

text \<open>The loop \<open>for chunk_idx in range(num_chunks)\<close>, threading \<open>in_block_comment\<close>.\<close>

fun chunk_loop :: "string list \<Rightarrow> nat \<Rightarrow> nat list \<Rightarrow> bool \<Rightarrow> flowable list" where
  "chunk_loop ls num_chunks [] ibc = []"
| "chunk_loop ls num_chunks (chunk_idx # idxs) ibc =
     (let chunk_start = chunk_idx * max_lines_per_chunk;
          chunk_end = min (chunk_start + max_lines_per_chunk) (length ls);
          chunk_code = join_nl (slice ls chunk_start chunk_end);
          is_first = (chunk_idx = 0);
          is_last = (int chunk_idx = int num_chunks - 1);
          code_flowable =
            SyntaxHighlightedCode chunk_code (chunk_start + 1) is_first is_last ibc
      in code_flowable #
         chunk_loop ls num_chunks idxs (foldl scan_line ibc (slice ls chunk_start chunk_end)))"

text \<open>The code flowables appended for one file's content.\<close>

definition create_pdf_chunks :: "string \<Rightarrow> flowable list" where
  "create_pdf_chunks code_content =
     (let ls = split_nl code_content;
          num_chunks = (length ls + max_lines_per_chunk - 1) div max_lines_per_chunk
      in if length ls > max_lines_per_chunk
         then chunk_loop ls num_chunks [0..<num_chunks] False
         else [SyntaxHighlightedCode code_content 1 True True False])"

text \<open>
  The per-line heuristic as the specification words it: a line containing \<open>/*\<close>
  without a later \<open>*/\<close> sets the flag, a line containing \<open>*/\<close> clears it. "Later" is
  read as in the highlighter: a \<open>*/\<close> found from the end of the first \<open>/*\<close> on.
\<close>

definition described_scan_line :: "bool \<Rightarrow> string \<Rightarrow> bool" where
  "described_scan_line ibc line =
     (if (case str_find ''/*'' line of
            None \<Rightarrow> False
          | Some p \<Rightarrow> str_find_from ''*/'' line (p + 2) = None) then True
      else if str_in ''*/'' line then False
      else ibc)"

section \<open>Predicates used to state the properties\<close>

text \<open>
  The characters that rules 2 to 7 of the tokenizer consume on their own: ASCII letters
  and the underscore, digits, the operator, bracket and separator characters, and
  whitespace.
\<close>

definition rule_char :: "char \<Rightarrow> bool" where
  "rule_char c =
     (is_ident_start c \<or> is_digit c \<or> c \<in> set single_char_tokens \<or> is_space c)"

text \<open>The characters the lexical rules mention: the two quotes and the above.\<close>

definition covered_char :: "char \<Rightarrow> bool" where
  "covered_char c = (c = dquote \<or> c = squote \<or> rule_char c)"

text \<open>
  A line that the tokenizer covers without a gap: read from the left, every quote
  opens a literal that is closed on the line (anything may stand inside it), and
  every character outside the literals is a \<open>rule_char\<close>.
\<close>

fun tokenizable :: "string \<Rightarrow> bool" where
  "tokenizable [] = True"
| "tokenizable (c # cs) =
     (if c = dquote \<or> c = squote then
        (case quoted_body c cs of None \<Rightarrow> False | Some n \<Rightarrow> tokenizable (drop n cs))
      else rule_char c \<and> tokenizable cs)"

text \<open>Neither whitespace nor a quote.\<close>

definition plain_char :: "char \<Rightarrow> bool" where
  "plain_char c = (\<not> is_space c \<and> c \<noteq> dquote \<and> c \<noteq> squote)"

text \<open>The characters of the tokens of rules 2 to 6.\<close>

definition code_char :: "char \<Rightarrow> bool" where
  "code_char c = (is_word c \<or> c \<in> set single_char_tokens)"

text \<open>The shapes a token of \<open>findall_tokens\<close> can have.\<close>

definition tok_ok :: "string \<Rightarrow> bool" where
  "tok_ok t = (t \<noteq> [] \<and>
     ((hd t = dquote \<and> last t = dquote) \<or> (hd t = squote \<and> last t = squote) \<or>
      (\<forall>c\<in>set t. code_char c) \<or> (\<forall>c\<in>set t. is_space c)))"

text \<open>The keys of a palette, in the order every built-in palette lists them.\<close>

definition palette_keys :: "string list" where
  "palette_keys =
     [''bg'', ''bg_page'', ''border'', ''linenr'', ''text'', ''text_dim'', ''comment'',
      ''keyword'', ''function'', ''string'', ''number'', ''preproc'', ''type'', ''variable'',
      ''property'', ''operator'', ''punctuation'']"

text \<open>
  The scan of the chunker with containment written out, and the condition under which
  a line is treated alike by the scan and by the heuristic as described: if the line
  has both markers, some \<open>*/\<close> stands after a \<open>/*\<close>.
\<close>

definition contains_scan_line :: "bool \<Rightarrow> string \<Rightarrow> bool" where
  "contains_scan_line flag line =
     (if sublist ''/*'' line \<and> \<not> sublist ''*/'' line then True
      else if sublist ''*/'' line then False
      else flag)"

definition closes_after_open :: "string \<Rightarrow> bool" where
  "closes_after_open line =
     (sublist ''/*'' line \<and> sublist ''*/'' line \<longrightarrow>
        (\<exists>pre post. line = pre @ ''/*'' @ post \<and> sublist ''*/'' post))"

section \<open>Facts about the string primitives\<close>

declare draw_highlighted_line.simps [simp del]

lemma str_in_sublist: "str_in sub s = sublist sub s"
  by (induction s) (auto simp: sublist_Cons_right)

lemma str_find_None: "str_find sub s = None \<longleftrightarrow> \<not> sublist sub s"
  by (induction s) (auto simp: sublist_Cons_right)

lemma str_find_Some:
  "str_find sub s = Some p \<Longrightarrow> s = take p s @ sub @ drop (p + length sub) s"
proof (induction s arbitrary: p)
  case Nil
  then show ?case by (simp split: if_splits)
next
  case (Cons c cs)
  show ?case
  proof (cases "prefix sub (c # cs)")
    case True
    with Cons.prems have "p = 0" by simp
    with True show ?thesis by (auto simp: prefix_def)
  next
    case False
    with Cons.prems obtain p' where p': "str_find sub cs = Some p'" "p = Suc p'"
      by auto
    from Cons.IH [OF p'(1)] p'(2) show ?thesis by simp
  qed
qed

lemma str_find_from_None:
  "str_find_from sub s start = None \<longleftrightarrow> \<not> sublist sub (drop start s)"
  by (simp add: str_find_from_def str_find_None)

section \<open>The line highlighter's state transitions\<close>

text \<open>
  C2 (comment continuation). A line that is entered inside a block comment and has no
  occurrence of \<open>*/\<close> is drawn as one \<open>BlockComment\<close> span holding the whole line, and
  the highlighter returns \<open>True\<close>: the next line is still inside the comment.
\<close>

theorem comment_continuation:
  assumes "\<not> sublist ''*/'' line"
  shows "draw_highlighted_line line True = ([(line, BlockComment)], True)"
  using assms by (simp add: draw_highlighted_line.simps [of line True] str_find_None [symmetric])

theorem comment_continuation_witness:
  "\<not> sublist ''*/'' '' * still inside / the comment'' \<and>
   draw_highlighted_line '' * still inside / the comment'' True =
     ([('' * still inside / the comment'', BlockComment)], True)"
proof -
  have h: "\<not> sublist ''*/'' '' * still inside / the comment''"
    by (simp add: str_in_sublist [symmetric])
  show ?thesis using h comment_continuation [OF h] by simp
qed

text \<open>
  C5 (exit state after closing a carried-over comment). A line that is entered inside
  a block comment and contains \<open>*/\<close> returns \<open>False\<close>, whatever follows the \<open>*/\<close>: the
  value returned by the recursive call on the tail is dropped, so a \<open>/*\<close> reopened in
  the tail and left open does not change the exit state.
\<close>

theorem carried_comment_exit_normal:
  assumes "sublist ''*/'' line"
  shows "snd (draw_highlighted_line line True) = False"
proof -
  from assms obtain p where "str_find ''*/'' line = Some p"
    using str_find_None [of "''*/''" line] by auto
  then show ?thesis
    by (simp add: draw_highlighted_line.simps [of line True] Let_def)
qed

theorem carried_comment_exit_normal_witness:
  "sublist ''*/'' ''a */ b /* c'' \<and> snd (draw_highlighted_line ''a */ b /* c'' True) = False"
proof -
  have h: "sublist ''*/'' ''a */ b /* c''"
    by (simp add: str_in_sublist [symmetric])
  show ?thesis using h carried_comment_exit_normal [OF h] by simp
qed

text \<open>
  C10 (exits from the normal state). A line entered in the normal state that has no
  occurrence of \<open>/*\<close> returns \<open>False\<close>, be it a preprocessor line, a line with \<open>//\<close> or
  plain code. Whenever a line entered in the normal state returns \<open>True\<close>, it contains
  a \<open>/*\<close> with no \<open>*/\<close> in the text after it.
\<close>

theorem normal_exit_state:
  "(\<not> sublist ''/*'' line \<longrightarrow> snd (draw_highlighted_line line False) = False) \<and>
   (snd (draw_highlighted_line line False) \<longrightarrow>
      (\<exists>pre post. line = pre @ ''/*'' @ post \<and> \<not> sublist ''*/'' post))"
proof (cases "str_find ''/*'' line")
  case None
  then have "\<not> sublist ''/*'' line" by (simp add: str_find_None)
  moreover from None have "snd (draw_highlighted_line line False) = False"
    by (simp add: draw_highlighted_line.simps [of line False] Let_def split: prod.splits)
  ultimately show ?thesis by simp
next
  case (Some p)
  then have sub: "sublist ''/*'' line"
    using str_find_None [of "''/*''" line] by auto
  from str_find_Some [OF Some] have dec: "line = take p line @ ''/*'' @ drop (p + 2) line"
    by simp
  show ?thesis
  proof (cases "str_find_from ''*/'' line (p + 2)")
    case None
    then have "\<not> sublist ''*/'' (drop (p + 2) line)"
      by (simp add: str_find_from_None)
    with dec sub show ?thesis by blast
  next
    case (Some e)
    with \<open>str_find ''/*'' line = Some p\<close>
    have "snd (draw_highlighted_line line False) = False"
      by (simp add: draw_highlighted_line.simps [of line False] Let_def)
    with sub show ?thesis by simp
  qed
qed

theorem normal_exit_state_witness:
  "(\<not> sublist ''/*'' ''x = 1; // c'' \<and>
      snd (draw_highlighted_line ''x = 1; // c'' False) = False) \<and>
   (snd (draw_highlighted_line ''x; /* c'' False) \<and>
      (\<exists>pre post. ''x; /* c'' = pre @ ''/*'' @ post \<and> \<not> sublist ''*/'' post))"
proof -
  have h1: "\<not> sublist ''/*'' ''x = 1; // c''"
    by (simp add: str_in_sublist [symmetric])
  have h2: "snd (draw_highlighted_line ''x; /* c'' False)"
    by (simp add: draw_highlighted_line.simps [of _ False] str_find_from_def)
  from normal_exit_state [of "''x = 1; // c''"] normal_exit_state [of "''x; /* c''"] h1 h2
  show ?thesis by blast
qed

text \<open>
  C3 (text after a closed comment). In the normal state the text after the first
  \<open>/* ... */\<close> of a line is passed to \<open>draw_code_tokens\<close>, not to the highlighter: a
  \<open>//\<close> comment or a second block comment in it is drawn as operators and identifiers.
  The branch for a comment carried over from the line before does pass its tail to
  the highlighter, as the third line shows.
\<close>

theorem text_after_comment_is_tokenized:
  "draw_highlighted_line ''/* a */ // b'' False =
     ([(''/* a */'', BlockComment), ('' '', Whitespace), (''/'', Operator),
       (''/'', Operator), ('' '', Whitespace), (''b'', Identifier)], False) \<and>
   draw_highlighted_line ''/* a */ x /* b */'' False =
     ([(''/* a */'', BlockComment), ('' '', Whitespace), (''x'', Identifier),
       ('' '', Whitespace), (''/'', Operator), (''*'', PointerOrRef), ('' '', Whitespace),
       (''b'', Identifier), ('' '', Whitespace), (''*'', PointerOrRef), (''/'', Operator)],
      False) \<and>
   draw_highlighted_line ''a */ // b'' True =
     ([(''a */'', BlockComment), ('' '', Whitespace), (''// b'', LineComment)], False)"
  by code_simp

text \<open>
  C7 (a \<open>//\<close> inside a string literal). For the line
  \<open>std::string s = "http://x.com";\<close> in the normal state, the text from the first \<open>//\<close>
  to the end of the line, closing quote included, is one \<open>LineComment\<close> span; the
  opening quote before it matches no token rule and is left out.
\<close>

theorem line_comment_inside_string:
  "draw_highlighted_line
     (''std::string s = '' @ [dquote] @ ''http://x.com'' @ [dquote] @ '';'') False =
   ([(''std'', Identifier), (''::'', PointerOrRef), (''string'', TypeName),
     ('' '', Whitespace), (''s'', Identifier), ('' '', Whitespace), (''='', Operator),
     ('' '', Whitespace), (''http'', Identifier), ('':'', Identifier),
     (''//x.com'' @ [dquote] @ '';'', LineComment)],
    False)"
  by code_simp

section \<open>Facts about the tokenizer\<close>

lemma or_else_Some:
  "or_else a b = Some x \<longleftrightarrow> a = Some x \<or> (a = None \<and> b = Some x)"
  by (cases a) (auto simp: or_else_def)

lemma quoted_body_closing:
  "quoted_body q cs = Some n \<Longrightarrow> 0 < n \<and> n \<le> length cs \<and> cs ! (n - 1) = q"
proof (induction q cs arbitrary: n rule: quoted_body.induct)
  case (1 q)
  then show ?case by simp
next
  case (2 q c)
  then show ?case by (simp split: if_splits)
next
  case (3 q c d ds)
  show ?case
  proof (cases "c = q")
    case True
    with "3.prems" show ?thesis by simp
  next
    case False
    note neq = this
    show ?thesis
    proof (cases "c = backslash")
      case True
      with neq "3.prems" obtain m where m: "d \<noteq> newline" "quoted_body q ds = Some m" "n = m + 2"
        by (auto split: if_splits)
      from "3.IH"(1) [OF neq True m(1) m(2)] m(3) show ?thesis by (cases m) auto
    next
      case False
      with neq "3.prems" obtain m where m: "quoted_body q (d # ds) = Some m" "n = Suc m"
        by auto
      from "3.IH"(2) [OF neq False m(1)] m(2) show ?thesis by (cases m) auto
    qed
  qed
qed

lemma ident_start_chars_plain:
  "\<forall>c\<in>set ''ABCDEFGHIJKLMNOPQRSTUVWXYZabcdefghijklmnopqrstuvwxyz_''. plain_char c"
  by (simp add: plain_char_def is_space_def)

lemma digit_chars_plain: "\<forall>c\<in>set ''0123456789''. plain_char c"
  by (simp add: plain_char_def is_space_def)

lemma single_chars_plain: "\<forall>c\<in>set single_char_tokens. plain_char c"
  by (simp add: single_char_tokens_def plain_char_def is_space_def)

lemma is_word_plain:
  assumes "is_word c"
  shows "plain_char c"
proof -
  from assms consider "is_ident_start c" | "is_digit c" | "170 \<le> (of_char c :: nat)"
    unfolding is_word_def Let_def by linarith
  then show ?thesis
  proof cases
    case 1
    with ident_start_chars_plain show ?thesis unfolding is_ident_start_def by blast
  next
    case 2
    with digit_chars_plain show ?thesis unfolding is_digit_def by blast
  next
    case 3
    have "(of_char dquote :: nat) = 34" "(of_char squote :: nat) = 39" by simp_all
    with 3 have "c \<noteq> dquote" "c \<noteq> squote" by auto
    moreover from 3 have "\<not> is_space c"
      unfolding is_space_def Let_def by arith
    ultimately show ?thesis by (simp add: plain_char_def)
  qed
qed

lemma code_char_plain: "code_char c \<Longrightarrow> plain_char c"
  unfolding code_char_def using is_word_plain [of c] single_chars_plain by blast

lemma is_space_not_quote: "is_space c \<Longrightarrow> c \<noteq> dquote \<and> c \<noteq> squote"
  by (auto simp: is_space_def)

lemma is_digit_word: "is_digit c \<Longrightarrow> is_word c"
  by (simp add: is_word_def)

lemma hex_chars_word: "\<forall>c\<in>set ''0123456789abcdefABCDEF''. is_word c"
  by (simp add: is_word_def is_ident_start_def is_digit_def)

lemma is_hex_word: "is_hex c \<Longrightarrow> is_word c"
  unfolding is_hex_def using hex_chars_word by blast

lemma suffix_chars_word: "\<forall>c\<in>set ''fFlLuU''. is_word c"
  by (simp add: is_word_def is_ident_start_def)

lemma is_num_suffix_word: "is_num_suffix c \<Longrightarrow> is_word c"
  unfolding is_num_suffix_def using suffix_chars_word by blast

lemma takeWhile_prefix: "prefix (takeWhile P xs) xs"
  by (metis prefixI takeWhile_dropWhile_id)

lemma match_hex_shape:
  assumes "match_hex s = Some t"
  shows "t \<noteq> [] \<and> prefix t s \<and> (\<forall>c\<in>set t. code_char c)"
proof -
  from assms obtain rest where s: "s = CHR ''0'' # CHR ''x'' # rest"
    and t: "t = CHR ''0'' # CHR ''x'' # takeWhile is_hex rest"
    by (auto simp: match_hex_def split: list.splits if_splits)
  have "\<forall>c\<in>set (takeWhile is_hex rest). code_char c"
    by (auto dest!: set_takeWhileD is_hex_word simp: code_char_def)
  moreover have "code_char CHR ''0''" "code_char CHR ''x''"
    by (simp_all add: code_char_def is_word_def is_digit_def is_ident_start_def)
  ultimately show ?thesis using s t takeWhile_prefix [of is_hex rest] by simp
qed

lemma match_number_shape:
  assumes "match_number s = Some t"
  shows "t \<noteq> [] \<and> prefix t s \<and> (\<forall>c\<in>set t. code_char c)"
proof -
  define d1 where "d1 = takeWhile is_digit s"
  define r1 where "r1 = dropWhile is_digit s"
  define dot where "dot = (if startswith r1 ''.'' then ''.'' else [])"
  define r2 where "r2 = drop (length dot) r1"
  define d2 where "d2 = takeWhile is_digit r2"
  define r3 where "r3 = dropWhile is_digit r2"
  define sfx where "sfx = takeWhile is_num_suffix r3"
  have s1: "s = d1 @ r1" by (simp add: d1_def r1_def)
  have "prefix dot r1" by (simp add: dot_def startswith_def)
  then have s2: "r1 = dot @ r2" by (auto simp: r2_def prefix_def)
  have s3: "r2 = d2 @ r3" by (simp add: d2_def r3_def)
  have s4: "prefix sfx r3" unfolding sfx_def by (rule takeWhile_prefix)
  have eq: "match_number s = (if d1 = [] then None else Some (d1 @ dot @ d2 @ sfx))"
    unfolding match_number_def d1_def r1_def dot_def r2_def d2_def r3_def sfx_def Let_def
    by (rule refl)
  from assms have ne: "d1 \<noteq> []" and t: "t = d1 @ dot @ d2 @ sfx"
    unfolding eq by (simp_all split: if_splits)
  have pre: "prefix t s"
    using s4 by (simp add: t s1 s2 s3)
  have "\<forall>c\<in>set d1. code_char c" "\<forall>c\<in>set d2. code_char c"
    by (auto simp: d1_def d2_def code_char_def dest!: set_takeWhileD is_digit_word)
  moreover have "\<forall>c\<in>set sfx. code_char c"
    by (auto simp: sfx_def code_char_def dest!: set_takeWhileD is_num_suffix_word)
  moreover have "\<forall>c\<in>set dot. code_char c"
    by (simp add: dot_def code_char_def single_char_tokens_def)
  ultimately show ?thesis using ne pre t by auto
qed

lemma match_identifier_shape:
  assumes "match_identifier s = Some t"
  shows "t \<noteq> [] \<and> prefix t s \<and> (\<forall>c\<in>set t. code_char c)"
proof -
  from assms obtain c cs where s: "s = c # cs" and c: "is_ident_start c"
    and t: "t = c # takeWhile is_word cs"
    by (auto simp: match_identifier_def split: list.splits if_splits)
  have "prefix (takeWhile is_word cs) cs"
    by (rule takeWhile_prefix)
  moreover have "\<forall>x\<in>set (takeWhile is_word cs). code_char x"
    by (auto dest!: set_takeWhileD simp: code_char_def)
  moreover from c have "code_char c" by (simp add: code_char_def is_word_def)
  ultimately show ?thesis using s t by simp
qed

lemma match_multi_operator_shape:
  assumes "match_multi_operator s = Some t"
  shows "t \<noteq> [] \<and> prefix t s \<and> (\<forall>c\<in>set t. code_char c)"
proof -
  from assms have "t \<in> set multi_char_operators" "prefix t s"
    by (auto simp: match_multi_operator_def find_Some_iff)
  then show ?thesis
    by (auto simp: multi_char_operators_def code_char_def single_char_tokens_def)
qed

lemma match_single_shape:
  assumes "match_single s = Some t"
  shows "t \<noteq> [] \<and> prefix t s \<and> (\<forall>c\<in>set t. code_char c)"
  using assms by (auto simp: match_single_def code_char_def split: list.splits if_splits)

lemma match_whitespace_shape:
  assumes "match_whitespace s = Some t"
  shows "t \<noteq> [] \<and> prefix t s \<and> (\<forall>c\<in>set t. is_space c)"
proof -
  from assms have t: "t = takeWhile is_space s" "t \<noteq> []"
    by (auto simp: match_whitespace_def split: if_splits)
  have "prefix (takeWhile is_space s) s"
    by (metis prefixI takeWhile_dropWhile_id)
  with t show ?thesis by (auto dest!: set_takeWhileD)
qed

lemma match_quoted_shape:
  assumes "match_quoted q s = Some t"
  shows "\<exists>n cs. s = q # cs \<and> quoted_body q cs = Some n \<and> t = q # take n cs \<and>
           0 < n \<and> n \<le> length cs \<and> cs ! (n - 1) = q"
proof -
  from assms obtain cs n where s: "s = q # cs" and n: "quoted_body q cs = Some n"
    and t: "t = take (Suc n) s"
    by (auto simp: match_quoted_def split: list.splits if_splits)
  from quoted_body_closing [OF n] s n t show ?thesis by simp
qed

lemma match_quoted_ends:
  assumes "match_quoted q s = Some t"
  shows "t \<noteq> [] \<and> prefix t s \<and> hd t = q \<and> last t = q"
proof -
  from match_quoted_shape [OF assms] obtain n cs where
    s: "s = q # cs" and t: "t = q # take n cs" and n: "0 < n" "n \<le> length cs" "cs ! (n - 1) = q"
    by blast
  from n have "take n cs \<noteq> []" by auto
  moreover from n \<open>take n cs \<noteq> []\<close> have "last (take n cs) = q"
    by (simp add: last_conv_nth min_absorb2)
  moreover have "prefix (take n cs) cs" by (rule take_is_prefix)
  ultimately show ?thesis using s t by simp
qed

lemma token_pattern_cases:
  assumes "token_pattern s = Some t"
  shows "t \<noteq> [] \<and> prefix t s \<and>
         ((hd t = dquote \<and> last t = dquote) \<or> (hd t = squote \<and> last t = squote) \<or>
          (\<forall>c\<in>set t. code_char c) \<or> (\<forall>c\<in>set t. is_space c))"
  using assms unfolding token_pattern_def or_else_Some
  using match_quoted_ends [of dquote s t] match_quoted_ends [of squote s t]
    match_hex_shape [of s t] match_number_shape [of s t] match_identifier_shape [of s t]
    match_multi_operator_shape [of s t] match_single_shape [of s t]
    match_whitespace_shape [of s t]
  by blast


lemma findall_tokens_ok: "t \<in> set (findall_tokens s) \<Longrightarrow> tok_ok t"
proof (induction s rule: findall_tokens.induct)
  case 1
  then show ?case by simp
next
  case (2 c cs)
  show ?case
  proof (cases "token_pattern (c # cs)")
    case None
    with 2 show ?thesis by simp
  next
    case (Some u)
    with "2.prems" have "t = u \<or> t \<in> set (findall_tokens (drop (length u - 1) cs))"
      by simp
    then show ?thesis
    proof
      assume "t = u"
      with token_pattern_cases [OF Some] show ?thesis by (simp add: tok_ok_def)
    next
      assume "t \<in> set (findall_tokens (drop (length u - 1) cs))"
      with "2.IH"(2) [OF Some] show ?thesis .
    qed
  qed
qed

lemma strip_all_space: "\<forall>c\<in>set t. is_space c \<Longrightarrow> strip t = []"
  by (auto simp: strip_def dest: set_dropWhileD)

lemma strip_ends:
  assumes "t \<noteq> []" "\<not> is_space (hd t)" "\<not> is_space (last t)"
  shows "strip t = t"
proof -
  from assms have "dropWhile is_space t = t"
    by (cases t) simp_all
  moreover from assms have "dropWhile is_space (rev t) = rev t"
    by (cases "rev t") (simp_all add: hd_rev)
  ultimately show ?thesis by (simp add: strip_def)
qed

lemma tok_ok_strip:
  assumes "tok_ok t" "strip t \<noteq> []"
  shows "strip t = t"
proof -
  from assms have ne: "t \<noteq> []" and ns: "\<not> (\<forall>c\<in>set t. is_space c)"
    using strip_all_space [of t] by (auto simp: tok_ok_def)
  have q: "\<not> is_space dquote" "\<not> is_space squote" by (simp_all add: is_space_def)
  from assms(1) ns ne have "\<not> is_space (hd t) \<and> \<not> is_space (last t)"
    unfolding tok_ok_def using q code_char_plain [of "hd t"] code_char_plain [of "last t"]
      hd_in_set [OF ne] last_in_set [OF ne]
    by (auto simp: plain_char_def)
  with ne show ?thesis by (simp add: strip_ends)
qed

lemma classify_FunctionCall:
  "classify prev tok nxt = FunctionCall \<Longrightarrow> \<exists>n. nxt = Some n \<and> strip n = ''(''"
  by (simp add: classify_def split: if_splits option.splits)

lemma classify_MemberAccess:
  "classify prev tok nxt = MemberAccess \<Longrightarrow> prev = Some ''.'' \<or> prev = Some ''->''"
  by (simp add: classify_def split: if_splits option.splits)

lemma length_classify_tokens [simp]: "length (classify_tokens prev toks) = length toks"
  by (induction toks arbitrary: prev) (simp_all add: Let_def)

lemma classify_tokens_adjacency:
  assumes "\<forall>t\<in>set toks. tok_ok t" "i < length toks"
  shows "(snd (classify_tokens prev toks ! i) = FunctionCall \<longrightarrow>
            Suc i < length toks \<and> toks ! Suc i = ''('') \<and>
         (snd (classify_tokens prev toks ! i) = MemberAccess \<longrightarrow>
            (if i = 0 then prev = Some ''.'' \<or> prev = Some ''->''
             else toks ! (i - 1) = ''.'' \<or> toks ! (i - 1) = ''->''))"
  using assms
proof (induction toks arbitrary: prev i)
  case Nil
  then show ?case by simp
next
  case (Cons tok rest)
  define nxt where "nxt = (case rest of [] \<Rightarrow> None | t # _ \<Rightarrow> Some t)"
  define cat where "cat = classify prev tok nxt"
  define prev' where "prev' = Some (if cat = Whitespace then tok else strip tok)"
  have unfold: "classify_tokens prev (tok # rest) = (tok, cat) # classify_tokens prev' rest"
    by (simp add: Let_def nxt_def cat_def prev'_def)
  from Cons.prems have ok: "tok_ok tok" "\<forall>t\<in>set rest. tok_ok t" by simp_all
  show ?case
  proof (cases i)
    case 0
    have "cat = FunctionCall \<Longrightarrow> Suc 0 < length (tok # rest) \<and> (tok # rest) ! Suc 0 = ''(''"
    proof -
      assume "cat = FunctionCall"
      from classify_FunctionCall [OF this [unfolded cat_def]] obtain n where
        n: "nxt = Some n" "strip n = ''(''" by blast
      from n(1) obtain rest' where rest: "rest = n # rest'"
        by (auto simp: nxt_def split: list.splits)
      with ok(2) have "tok_ok n" by simp
      from tok_ok_strip [OF this] n(2) have "n = ''(''" by simp
      with rest show ?thesis by simp
    qed
    moreover have "cat = MemberAccess \<Longrightarrow> prev = Some ''.'' \<or> prev = Some ''->''"
      unfolding cat_def by (rule classify_MemberAccess)
    ultimately show ?thesis using 0 unfold by simp
  next
    case (Suc j)
    with Cons.prems have j: "j < length rest" by simp
    note ih = Cons.IH [OF ok(2) j, of prev']
    have "j = 0 \<Longrightarrow> prev' = Some ''.'' \<or> prev' = Some ''->'' \<Longrightarrow> tok = ''.'' \<or> tok = ''->''"
    proof -
      assume "prev' = Some ''.'' \<or> prev' = Some ''->''"
      show ?thesis
      proof (cases "cat = Whitespace")
        case True
        with \<open>prev' = Some ''.'' \<or> prev' = Some ''->''\<close> show ?thesis by (simp add: prev'_def)
      next
        case False
        with \<open>prev' = Some ''.'' \<or> prev' = Some ''->''\<close>
        have s: "strip tok = ''.'' \<or> strip tok = ''->''" by (simp add: prev'_def)
        then have "strip tok \<noteq> []" by auto
        from tok_ok_strip [OF ok(1) this] s show ?thesis by simp
      qed
    qed
    with ih Suc unfold show ?thesis by (cases j) auto
  qed
qed


lemma or_else_None: "or_else a b = None \<longleftrightarrow> a = None \<and> b = None"
  by (cases a) (auto simp: or_else_def)

lemma rule_char_matches:
  assumes "rule_char c"
  shows "token_pattern (c # cs) \<noteq> None"
proof -
  from assms consider "is_ident_start c" | "is_digit c" | "c \<in> set single_char_tokens"
    | "is_space c"
    unfolding rule_char_def by blast
  then have "match_number (c # cs) \<noteq> None \<or> match_identifier (c # cs) \<noteq> None \<or>
             match_single (c # cs) \<noteq> None \<or> match_whitespace (c # cs) \<noteq> None"
  proof cases
    case 1
    then show ?thesis by (simp add: match_identifier_def)
  next
    case 2
    then show ?thesis by (simp add: match_number_def Let_def)
  next
    case 3
    then show ?thesis by (simp add: match_single_def)
  next
    case 4
    then show ?thesis by (simp add: match_whitespace_def)
  qed
  then show ?thesis
    unfolding token_pattern_def or_else_None by blast
qed

lemma tokenizable_drop:
  assumes "tokenizable (xs @ ys)" "\<forall>c\<in>set xs. c \<noteq> dquote \<and> c \<noteq> squote"
  shows "tokenizable ys"
  using assms by (induction xs) auto

lemma quoted_token:
  assumes "c = dquote \<or> c = squote" "quoted_body c cs = Some n"
  shows "token_pattern (c # cs) = Some (c # take n cs)"
proof -
  have m: "match_quoted c (c # cs) = Some (c # take n cs)"
    using assms(2) by (simp add: match_quoted_def)
  from assms(1) show ?thesis
  proof
    assume "c = dquote"
    with m show ?thesis by (simp add: token_pattern_def or_else_def)
  next
    assume c: "c = squote"
    then have "match_quoted dquote (c # cs) = None" by (simp add: match_quoted_def)
    with m c show ?thesis by (simp add: token_pattern_def or_else_def)
  qed
qed

lemma tokens_reconstruct: "tokenizable s \<Longrightarrow> concat (findall_tokens s) = s"
proof (induction s rule: findall_tokens.induct)
  case 1
  then show ?case by simp
next
  case (2 c cs)
  show ?case
  proof (cases "c = dquote \<or> c = squote")
    case True
    with "2.prems" obtain n where n: "quoted_body c cs = Some n" and
      rest: "tokenizable (drop n cs)"
      by (auto split: option.splits)
    from quoted_body_closing [OF n] have len: "n \<le> length cs" by simp
    from quoted_token [OF True n] have tp: "token_pattern (c # cs) = Some (c # take n cs)" .
    from len have l: "length (c # take n cs) - 1 = n" by simp
    from "2.IH"(2) [OF tp] rest l have "concat (findall_tokens (drop n cs)) = drop n cs"
      by simp
    with tp l show ?thesis by simp
  next
    case False
    with "2.prems" have rc: "rule_char c" and tl: "tokenizable cs" by simp_all
    from rule_char_matches [OF rc] obtain t where tp: "token_pattern (c # cs) = Some t"
      by blast
    from token_pattern_cases [OF tp] have ne: "t \<noteq> []" and pre: "prefix t (c # cs)"
      and shape: "(hd t = dquote \<and> last t = dquote) \<or> (hd t = squote \<and> last t = squote) \<or>
          (\<forall>c\<in>set t. code_char c) \<or> (\<forall>c\<in>set t. is_space c)"
      by blast+
    from ne pre obtain t' where t: "t = c # t'" and pre': "prefix t' cs"
      by (cases t) auto
    from pre' obtain r where cs: "cs = t' @ r" by (auto simp: prefix_def)
    from t False shape have "(\<forall>x\<in>set t. code_char x) \<or> (\<forall>x\<in>set t. is_space x)"
      by auto
    then have noq: "\<forall>x\<in>set t'. x \<noteq> dquote \<and> x \<noteq> squote"
      using t code_char_plain is_space_not_quote by (auto simp: plain_char_def)
    from tl cs noq have "tokenizable r" by (auto intro: tokenizable_drop)
    moreover have d: "drop (length t - 1) cs = r" by (simp add: t cs)
    ultimately have "concat (findall_tokens (drop (length t - 1) cs)) = r"
      using "2.IH"(2) [OF tp] by simp
    with tp t cs show ?thesis by simp
  qed
qed

lemma map_fst_classify_tokens: "map fst (classify_tokens prev toks) = toks"
  by (induction toks arbitrary: prev) (simp_all add: Let_def)

section \<open>Adjacency in the classifier\<close>

text \<open>
  C6 (strict adjacency). \<open>foo(\<close> draws \<open>foo\<close> as a function call and \<open>foo (\<close> as a plain
  identifier; \<open>obj.member\<close> draws \<open>member\<close> as a member access and \<open>obj. member\<close> as a
  plain identifier. For every line, the spans carry the tokens in order, a token
  drawn as a function call is directly followed by the token \<open>(\<close>, and a token drawn
  as a member access is directly preceded by the token \<open>.\<close> or \<open>->\<close>.
\<close>

theorem strict_adjacency:
  "draw_code_tokens ''foo('' = [(''foo'', FunctionCall), (''('', Punctuation)] \<and>
   draw_code_tokens ''foo ('' =
     [(''foo'', Identifier), ('' '', Whitespace), (''('', Punctuation)] \<and>
   draw_code_tokens ''obj.member'' =
     [(''obj'', Identifier), (''.'', Identifier), (''member'', MemberAccess)] \<and>
   draw_code_tokens ''obj. member'' =
     [(''obj'', Identifier), (''.'', Identifier), ('' '', Whitespace),
      (''member'', Identifier)] \<and>
   (\<forall>line i. i < length (findall_tokens line) \<longrightarrow>
      map fst (draw_code_tokens line) = findall_tokens line \<and>
      (snd (draw_code_tokens line ! i) = FunctionCall \<longrightarrow>
         Suc i < length (findall_tokens line) \<and> findall_tokens line ! Suc i = ''('') \<and>
      (snd (draw_code_tokens line ! i) = MemberAccess \<longrightarrow>
         0 < i \<and> (findall_tokens line ! (i - 1) = ''.'' \<or>
                  findall_tokens line ! (i - 1) = ''->'')))"
proof -
  have e1: "draw_code_tokens ''foo('' = [(''foo'', FunctionCall), (''('', Punctuation)]"
    by code_simp
  have e2: "draw_code_tokens ''foo ('' =
      [(''foo'', Identifier), ('' '', Whitespace), (''('', Punctuation)]"
    by code_simp
  have e3: "draw_code_tokens ''obj.member'' =
      [(''obj'', Identifier), (''.'', Identifier), (''member'', MemberAccess)]"
    by code_simp
  have e4: "draw_code_tokens ''obj. member'' =
      [(''obj'', Identifier), (''.'', Identifier), ('' '', Whitespace),
       (''member'', Identifier)]"
    by code_simp
  have g: "map fst (draw_code_tokens line) = findall_tokens line \<and>
      (snd (draw_code_tokens line ! i) = FunctionCall \<longrightarrow>
         Suc i < length (findall_tokens line) \<and> findall_tokens line ! Suc i = ''('') \<and>
      (snd (draw_code_tokens line ! i) = MemberAccess \<longrightarrow>
         0 < i \<and> (findall_tokens line ! (i - 1) = ''.'' \<or>
                  findall_tokens line ! (i - 1) = ''->''))"
    if i: "i < length (findall_tokens line)" for line i
  proof -
    have ok: "\<forall>t\<in>set (findall_tokens line). tok_ok t"
      by (simp add: findall_tokens_ok)
    from classify_tokens_adjacency [OF ok i, of None]
    show ?thesis
      by (auto simp: draw_code_tokens_def map_fst_classify_tokens split: if_splits)
  qed
  from e1 e2 e3 e4 g show ?thesis by blast
qed

theorem strict_adjacency_witness:
  "2 < length (findall_tokens ''obj->run(x)'') \<and>
   snd (draw_code_tokens ''obj->run(x)'' ! 2) = FunctionCall \<and>
   findall_tokens ''obj->run(x)'' ! Suc 2 = ''('' \<and>
   2 < length (findall_tokens ''p->q'') \<and>
   snd (draw_code_tokens ''p->q'' ! 2) = MemberAccess \<and>
   (findall_tokens ''p->q'' ! (2 - 1) = ''.'' \<or> findall_tokens ''p->q'' ! (2 - 1) = ''->'')"
proof -
  have h1: "2 < length (findall_tokens ''obj->run(x)'')" by code_simp
  have h2: "snd (draw_code_tokens ''obj->run(x)'' ! 2) = FunctionCall" by code_simp
  have h3: "2 < length (findall_tokens ''p->q'')" by code_simp
  have h4: "snd (draw_code_tokens ''p->q'' ! 2) = MemberAccess" by code_simp
  from strict_adjacency have
    "\<forall>line i. i < length (findall_tokens line) \<longrightarrow>
      map fst (draw_code_tokens line) = findall_tokens line \<and>
      (snd (draw_code_tokens line ! i) = FunctionCall \<longrightarrow>
         Suc i < length (findall_tokens line) \<and> findall_tokens line ! Suc i = ''('') \<and>
      (snd (draw_code_tokens line ! i) = MemberAccess \<longrightarrow>
         0 < i \<and> (findall_tokens line ! (i - 1) = ''.'' \<or>
                  findall_tokens line ! (i - 1) = ''->''))"
    by blast
  with h1 h2 h3 h4 show ?thesis by blast
qed

section \<open>Completeness of the tokenizer\<close>

lemma rule_char_plain: "rule_char c \<Longrightarrow> c \<noteq> dquote \<and> c \<noteq> squote"
proof -
  assume "rule_char c"
  then consider "is_word c" | "c \<in> set single_char_tokens" | "is_space c"
    unfolding rule_char_def is_word_def by blast
  then show ?thesis
    using is_word_plain [of c] single_chars_plain is_space_not_quote [of c]
    by cases (auto simp: plain_char_def)
qed

lemma rule_chars_tokenizable: "list_all rule_char s \<Longrightarrow> tokenizable s"
  by (induction s) (auto dest: rule_char_plain)

text \<open>
  C1 (completeness), as the code has it. On a line in which every quote opens a
  literal closed on the same line and every character outside the literals is a
  letter, digit, underscore, operator, bracket, separator or whitespace character,
  the tokens concatenated give the line back. Every line made of such characters
  and no quote is of this kind.
\<close>

theorem tokenizer_gap_free:
  "(tokenizable line \<longrightarrow> concat (findall_tokens line) = line) \<and>
   (list_all rule_char line \<longrightarrow> tokenizable line)"
  using tokens_reconstruct [of line] rule_chars_tokenizable [of line] by blast

theorem tokenizer_gap_free_witness:
  "tokenizable (''s = '' @ [dquote] @ ''a//b@'' @ [backslash, dquote, dquote] @
      '' + 'c'; x->y(0x1F, 2.5f)'') \<and>
   concat (findall_tokens (''s = '' @ [dquote] @ ''a//b@'' @ [backslash, dquote, dquote] @
      '' + 'c'; x->y(0x1F, 2.5f)'')) =
     ''s = '' @ [dquote] @ ''a//b@'' @ [backslash, dquote, dquote] @
      '' + 'c'; x->y(0x1F, 2.5f)'' \<and>
   list_all rule_char ''int *p = &x;'' \<and> tokenizable ''int *p = &x;''"
proof -
  have h1: "tokenizable (''s = '' @ [dquote] @ ''a//b@'' @ [backslash, dquote, dquote] @
      '' + 'c'; x->y(0x1F, 2.5f)'')"
    by code_simp
  have h2: "list_all rule_char ''int *p = &x;''" by code_simp
  from h1 h2
    tokenizer_gap_free [of "''s = '' @ [dquote] @ ''a//b@'' @ [backslash, dquote, dquote] @
      '' + 'c'; x->y(0x1F, 2.5f)''"]
    tokenizer_gap_free [of "''int *p = &x;''"]
  show ?thesis by blast
qed

text \<open>
  Completeness does not extend to every line made of characters that the lexical
  rules name: in \<open>std::string s = "http:\<close> the quote is not closed on the line, no
  alternative matches at it, and it is left out of the tokens.
\<close>

theorem tokenizer_gap_free_counterexample:
  "list_all covered_char (''std::string s = '' @ [dquote] @ ''http:'') \<and>
   concat (findall_tokens (''std::string s = '' @ [dquote] @ ''http:'')) =
     ''std::string s = http:'' \<and>
   concat (findall_tokens (''std::string s = '' @ [dquote] @ ''http:'')) \<noteq>
     ''std::string s = '' @ [dquote] @ ''http:''"
  by code_simp

section \<open>Palettes\<close>

lemma themes_names_distinct: "distinct (map fst THEMES)"
  by (simp add: THEMES_def)

lemma themes_keys: "list_all (\<lambda>(name, theme). map fst theme = palette_keys) THEMES"
  by (simp add: THEMES_def palette_keys_def)

lemma category_key_in_palette:
  "c \<noteq> Whitespace \<Longrightarrow> \<exists>k. category_key c = Some k \<and> k \<in> set palette_keys"
  by (cases c) (simp_all add: palette_keys_def)

lemma decoration_keys_in_palette: "set decoration_keys \<subseteq> set palette_keys"
  by (simp add: decoration_keys_def palette_keys_def)

lemma theme_color_defined:
  assumes "(name, theme) \<in> set THEMES" "k \<in> set palette_keys"
  shows "\<exists>col. theme_color name k = Some col"
proof -
  from assms(1) themes_names_distinct have m: "map_of THEMES name = Some theme"
    by (simp add: map_of_is_SomeI)
  from assms(1) themes_keys have "map fst theme = palette_keys"
    by (auto simp: list_all_iff)
  with assms(2) have "k \<in> fst ` set theme" by (metis set_map)
  then have "map_of theme k \<noteq> None" by (simp add: map_of_eq_None_iff)
  with m show ?thesis by (auto simp: theme_color_def)
qed

text \<open>
  C9 (palette completeness). There are five built-in palettes; each lists the same
  keys; in each, every category either has a key with a colour or is whitespace,
  whose branch draws nothing and looks no colour up; and each of the keys \<open>bg\<close>,
  \<open>bg_page\<close>, \<open>border\<close>, \<open>linenr\<close>, \<open>text\<close> and \<open>text_dim\<close> has a colour.
\<close>

theorem palette_completeness:
  "5 \<le> length THEMES \<and>
   (\<forall>name theme. (name, theme) \<in> set THEMES \<longrightarrow>
      map fst theme = palette_keys \<and>
      (\<forall>c. case category_key c of
              None \<Rightarrow> c = Whitespace
            | Some k \<Rightarrow> (\<exists>col. theme_color name k = Some col)) \<and>
      list_all (\<lambda>k. \<exists>col. theme_color name k = Some col) decoration_keys)"
proof -
  have "5 \<le> length THEMES" by (simp add: THEMES_def)
  moreover have "map fst theme = palette_keys" if "(name, theme) \<in> set THEMES" for name theme
    using that themes_keys by (auto simp: list_all_iff)
  moreover have "case category_key c of
                   None \<Rightarrow> c = Whitespace
                 | Some k \<Rightarrow> (\<exists>col. theme_color name k = Some col)"
    if th: "(name, theme) \<in> set THEMES" for name theme c
  proof (cases "c = Whitespace")
    case True
    then show ?thesis by simp
  next
    case False
    from category_key_in_palette [OF False] theme_color_defined [OF th]
    show ?thesis by auto
  qed
  moreover have "list_all (\<lambda>k. \<exists>col. theme_color name k = Some col) decoration_keys"
    if "(name, theme) \<in> set THEMES" for name theme
    using decoration_keys_in_palette theme_color_defined [OF that]
    by (auto simp: list_all_iff)
  ultimately show ?thesis by blast
qed

theorem palette_completeness_witness:
  "(\<exists>theme. (''kanagawa-lotus'', theme) \<in> set THEMES) \<and>
   (case category_key NamespaceAccess of
      None \<Rightarrow> NamespaceAccess = Whitespace
    | Some k \<Rightarrow> (\<exists>col. theme_color ''kanagawa-lotus'' k = Some col)) \<and>
   list_all (\<lambda>k. \<exists>col. theme_color ''kanagawa-lotus'' k = Some col) decoration_keys"
proof -
  have h: "\<exists>theme. (''kanagawa-lotus'', theme) \<in> set THEMES"
    by (simp add: THEMES_def)
  from h palette_completeness show ?thesis by blast
qed

section \<open>The chunker\<close>

lemma split_nl_nonempty [simp]: "split_nl s \<noteq> []"
  by (induction s) (auto split: list.splits)

lemma split_nl_plain: "newline \<notin> set l \<Longrightarrow> split_nl l = [l]"
  by (induction l) auto

lemma split_nl_append:
  "newline \<notin> set l \<Longrightarrow> split_nl (l @ newline # r) = l # split_nl r"
  by (induction l) auto

lemma split_nl_lines: "l \<in> set (split_nl s) \<Longrightarrow> newline \<notin> set l"
proof (induction s arbitrary: l)
  case Nil
  then show ?case by simp
next
  case (Cons c cs)
  then show ?case
    by (cases "split_nl cs") (auto split: if_splits)
qed

lemma split_join:
  "xs \<noteq> [] \<Longrightarrow> \<forall>l\<in>set xs. newline \<notin> set l \<Longrightarrow> split_nl (join_nl xs) = xs"
proof (induction xs rule: join_nl.induct)
  case 1
  then show ?case by simp
next
  case (2 l)
  then show ?case by (simp add: split_nl_plain)
next
  case (3 l m ls)
  then show ?case by (simp add: split_nl_append)
qed

lemma slice_chunk:
  "slice ls a (min (a + n) (length ls)) = take n (drop a ls)"
  by (simp add: slice_def min_def)

lemma chunk_loop_Cons:
  "chunk_loop ls nc (i # idxs) ibc =
     SyntaxHighlightedCode (join_nl (take max_lines_per_chunk (drop (i * max_lines_per_chunk) ls)))
       (i * max_lines_per_chunk + 1) (i = 0) (int i = int nc - 1) ibc #
     chunk_loop ls nc idxs
       (foldl scan_line ibc (take max_lines_per_chunk (drop (i * max_lines_per_chunk) ls)))"
  by (simp add: Let_def slice_chunk)


lemma chunk_lines:
  assumes "\<forall>l\<in>set ls. newline \<notin> set l" "a < length ls"
  shows "lines (SyntaxHighlightedCode (join_nl (take n (drop a ls))) sl f l b) =
           (if n = 0 then [[]] else take n (drop a ls))"
proof (cases "n = 0")
  case True
  then show ?thesis by (simp add: SyntaxHighlightedCode_def)
next
  case False
  with assms(2) have "take n (drop a ls) \<noteq> []" by simp
  moreover from assms(1) have "\<forall>l\<in>set (take n (drop a ls)). newline \<notin> set l"
    by (meson in_set_dropD in_set_takeD)
  ultimately show ?thesis using False by (simp add: SyntaxHighlightedCode_def split_join)
qed

text \<open>
  C8 (chunking). A file of exactly 110 lines gives two chunks: the first starts at
  line 1 and is first but not last, the second starts at line 56 and is last but not
  first; they hold the first 55 and the last 55 lines.
\<close>

theorem chunking_110_lines:
  assumes "length (split_nl code_content) = 110"
  shows "\<exists>c1 c2. create_pdf_chunks code_content = [c1, c2] \<and>
           start_line c1 = 1 \<and> is_first_chunk c1 \<and> \<not> is_last_chunk c1 \<and>
           start_line c2 = 56 \<and> \<not> is_first_chunk c2 \<and> is_last_chunk c2 \<and>
           lines c1 = take 55 (split_nl code_content) \<and>
           lines c2 = drop 55 (split_nl code_content) \<and>
           length (lines c1) \<le> 55 \<and> length (lines c2) \<le> 55"
proof -
  define ls where "ls = split_nl code_content"
  have len: "length ls = 110" using assms by (simp add: ls_def)
  have plain: "\<forall>l\<in>set ls. newline \<notin> set l"
    by (simp add: ls_def split_nl_lines)
  have idx: "[0..<2] = [0, Suc 0]" by (simp add: upt_rec)
  define c1 where "c1 = SyntaxHighlightedCode (join_nl (take 55 (drop 0 ls))) 1 True False False"
  define c2 where "c2 = SyntaxHighlightedCode (join_nl (take 55 (drop 55 ls))) 56 False True
      (foldl scan_line False (take 55 ls))"
  have chunks: "create_pdf_chunks code_content = [c1, c2]"
    unfolding create_pdf_chunks_def ls_def [symmetric] Let_def
    by (simp add: len max_lines_per_chunk_def idx chunk_loop_Cons c1_def c2_def
        del: chunk_loop.simps(2))
  have l1: "lines c1 = take 55 ls"
    unfolding c1_def using chunk_lines [OF plain, of 0 55] len by simp
  have l2: "lines c2 = drop 55 ls"
    unfolding c2_def using chunk_lines [OF plain, of 55 55] len by simp
  have "start_line c1 = 1" "is_first_chunk c1" "\<not> is_last_chunk c1"
    "start_line c2 = 56" "\<not> is_first_chunk c2" "is_last_chunk c2"
    by (simp_all add: c1_def c2_def SyntaxHighlightedCode_def)
  with chunks l1 l2 len show ?thesis by (simp add: ls_def)
qed

theorem chunking_110_lines_witness:
  "length (split_nl (replicate 109 newline)) = 110 \<and>
   (\<exists>c1 c2. create_pdf_chunks (replicate 109 newline) = [c1, c2] \<and>
           start_line c1 = 1 \<and> is_first_chunk c1 \<and> \<not> is_last_chunk c1 \<and>
           start_line c2 = 56 \<and> \<not> is_first_chunk c2 \<and> is_last_chunk c2 \<and>
           length (lines c1) \<le> 55 \<and> length (lines c2) \<le> 55)"
proof -
  have h: "length (split_nl (replicate 109 newline)) = 110" by code_simp
  from chunking_110_lines [OF h] h show ?thesis by blast
qed

lemma chunk_loop_entry:
  assumes "k < b - a"
  shows "in_block_comment (chunk_loop ls nc [a..<b] ibc ! k) =
           foldl scan_line ibc
             (take (k * max_lines_per_chunk) (drop (a * max_lines_per_chunk) ls))"
  using assms
proof (induction k arbitrary: a ibc)
  case 0
  then have "[a..<b] = a # [Suc a..<b]" by (simp add: upt_conv_Cons)
  then show ?case
    by (simp add: chunk_loop_Cons SyntaxHighlightedCode_def del: chunk_loop.simps(2))
next
  case (Suc k)
  then have up: "[a..<b] = a # [Suc a..<b]" and k: "k < b - Suc a"
    by (simp_all add: upt_conv_Cons)
  let ?m = max_lines_per_chunk
  have "take (Suc k * ?m) (drop (a * ?m) ls) =
          take ?m (drop (a * ?m) ls) @ take (k * ?m) (drop (Suc a * ?m) ls)"
    by (simp add: take_add add.commute)
  with Suc.IH [OF k] up show ?case
    by (simp add: chunk_loop_Cons del: chunk_loop.simps(2))
qed

lemma length_chunk_loop [simp]: "length (chunk_loop ls nc idxs ibc) = length idxs"
  by (induction idxs arbitrary: ibc) (simp_all add: Let_def)

lemma chunk_entry_state:
  assumes "k < length (create_pdf_chunks code_content)"
  shows "in_block_comment (create_pdf_chunks code_content ! k) =
           foldl scan_line False (take (k * 55) (split_nl code_content))"
proof (cases "length (split_nl code_content) > max_lines_per_chunk")
  case True
  with assms chunk_loop_entry [of k _ 0 "split_nl code_content" _ False]
  show ?thesis
    by (simp add: create_pdf_chunks_def Let_def max_lines_per_chunk_def)
next
  case False
  with assms show ?thesis
    by (simp add: create_pdf_chunks_def Let_def SyntaxHighlightedCode_def)
qed

lemma scan_line_contains: "scan_line flag line = contains_scan_line flag line"
  by (simp add: scan_line_def contains_scan_line_def str_in_sublist)

lemma str_find_first:
  "str_find sub (pre @ sub @ post) = Some p \<Longrightarrow> p \<le> length pre"
proof (induction pre arbitrary: p)
  case Nil
  show ?case
  proof (cases "sub @ post")
    case Nil
    with Nil.prems show ?thesis by (simp split: if_splits)
  next
    case (Cons a list)
    then have "prefix sub (a # list)" by (metis prefixI)
    with Cons Nil.prems show ?thesis by simp
  qed
next
  case (Cons c pre)
  then show ?case by (auto split: if_splits)
qed

lemma described_scan_line_agrees:
  assumes "closes_after_open line"
  shows "described_scan_line flag line = scan_line flag line"
proof (cases "str_find ''/*'' line")
  case None
  then have "\<not> str_in ''/*'' line" by (simp add: str_in_sublist str_find_None)
  with None show ?thesis by (simp add: described_scan_line_def scan_line_def)
next
  case (Some p)
  then have opn: "sublist ''/*'' line"
    using str_find_None [of "''/*''" line] by auto
  show ?thesis
  proof (cases "str_find_from ''*/'' line (p + 2)")
    case None
    then have no_later: "\<not> sublist ''*/'' (drop (p + 2) line)"
      by (simp add: str_find_from_None)
    have "\<not> sublist ''*/'' line"
    proof
      assume "sublist ''*/'' line"
      with assms opn obtain pre post where
        dec: "line = pre @ ''/*'' @ post" and cl: "sublist ''*/'' post"
        unfolding closes_after_open_def by blast
      from Some dec have "p \<le> length pre" using str_find_first by blast
      then have "length pre - p + (p + 2) = length pre + 2" by simp
      then have "drop (length pre - p) (drop (p + 2) line) = drop (length pre + 2) line"
        by (simp only: drop_drop)
      moreover have "drop (length pre + 2) line = post" by (simp add: dec)
      ultimately have "post = drop (length pre - p) (drop (p + 2) line)" by simp
      then have "sublist post (drop (p + 2) line)"
        by (metis sublist_drop)
      with cl no_later show False
        using sublist_order.order_trans by blast
    qed
    with Some None opn show ?thesis
      by (simp add: described_scan_line_def scan_line_def str_in_sublist)
  next
    case (Some e)
    then have "sublist ''*/'' (drop (p + 2) line)"
      using str_find_from_None [of "''*/''" line "p + 2"] by auto
    then have "sublist ''*/'' line"
      using sublist_drop sublist_order.order_trans by blast
    with Some \<open>str_find ''/*'' line = Some p\<close> show ?thesis
      by (simp add: described_scan_line_def scan_line_def str_in_sublist)
  qed
qed

lemma foldl_described_agrees:
  "list_all closes_after_open ls \<Longrightarrow>
     foldl described_scan_line flag ls = foldl scan_line flag ls"
  by (induction ls arbitrary: flag) (simp_all add: described_scan_line_agrees)

lemma foldl_scan_line_contains:
  "foldl scan_line flag ls = foldl contains_scan_line flag ls"
  by (induction ls arbitrary: flag) (simp_all add: scan_line_contains)

text \<open>
  C4 (entry state of a chunk), as the code has it. The flag a chunk is created with
  is the scan folded over all lines before the chunk, where a line that contains
  \<open>/*\<close> and no \<open>*/\<close> at all sets the flag, any other line that contains \<open>*/\<close> clears it,
  and any other line leaves it. This equals the heuristic as described whenever
  every line before the chunk that has both markers has a \<open>*/\<close> after a \<open>/*\<close>.
\<close>

theorem chunk_entry_scan:
  assumes "k < length (create_pdf_chunks code_content)"
  shows "in_block_comment (create_pdf_chunks code_content ! k) =
           foldl contains_scan_line False (take (k * 55) (split_nl code_content)) \<and>
         (list_all closes_after_open (take (k * 55) (split_nl code_content)) \<longrightarrow>
            in_block_comment (create_pdf_chunks code_content ! k) =
              foldl described_scan_line False (take (k * 55) (split_nl code_content)))"
  using chunk_entry_state [OF assms]
  by (simp add: foldl_scan_line_contains foldl_described_agrees)

theorem chunk_entry_scan_witness:
  "1 < length (create_pdf_chunks (''/* a */ x'' @ [newline] @ ''y /* z'' @ replicate 60 newline)) \<and>
   list_all closes_after_open
     (take (1 * 55) (split_nl (''/* a */ x'' @ [newline] @ ''y /* z'' @ replicate 60 newline))) \<and>
   in_block_comment
     (create_pdf_chunks (''/* a */ x'' @ [newline] @ ''y /* z'' @ replicate 60 newline) ! 1) =
     foldl described_scan_line False
       (take (1 * 55) (split_nl (''/* a */ x'' @ [newline] @ ''y /* z'' @ replicate 60 newline))) \<and>
   in_block_comment
     (create_pdf_chunks (''/* a */ x'' @ [newline] @ ''y /* z'' @ replicate 60 newline) ! 1)"
proof -
  let ?c = "''/* a */ x'' @ [newline] @ ''y /* z'' @ replicate 60 newline"
  have h1: "1 < length (create_pdf_chunks ?c)" by code_simp
  have ls: "take (1 * 55) (split_nl ?c) = [''/* a */ x'', ''y /* z''] @ replicate 53 []"
    by code_simp
  have "''/* a */ x'' = [] @ ''/*'' @ '' a */ x'' \<and> sublist ''*/'' '' a */ x''"
    by (simp add: str_in_sublist [symmetric])
  then have l1: "closes_after_open ''/* a */ x''"
    unfolding closes_after_open_def by blast
  have l2: "closes_after_open ''y /* z''"
    by (simp add: closes_after_open_def str_in_sublist [symmetric])
  have l3: "closes_after_open []"
    by (simp add: closes_after_open_def)
  from l1 l2 l3 have h2: "list_all closes_after_open (take (1 * 55) (split_nl ?c))"
    unfolding ls by (simp add: list_all_iff)
  have v: "in_block_comment (create_pdf_chunks ?c ! 1)" by code_simp
  from chunk_entry_scan [OF h1] h1 h2 v show ?thesis by blast
qed

text \<open>
  The scan and the heuristic as described differ on a first line \<open>*/ x /*\<close>: the
  described heuristic sets the flag for the second chunk, the scan clears it.
\<close>

theorem chunk_entry_scan_counterexample:
  "1 < length (create_pdf_chunks (''*/ x /*'' @ replicate 55 newline)) \<and>
   in_block_comment (create_pdf_chunks (''*/ x /*'' @ replicate 55 newline) ! 1) = False \<and>
   foldl described_scan_line False
     (take 55 (split_nl (''*/ x /*'' @ replicate 55 newline))) = True"
  by code_simp

end
